theory Spec2Isabelle
  imports Main "HOL-Library.Sublist" "HOL-Library.Multiset"
begin

section \<open>The domain filter of \<^verbatim>\<open>main.cpp\<close>\<close>

text \<open>
  The program reads a block-list of domain names and a list of queries, and prints
  \<^verbatim>\<open>Bad\<close> for a query that is a listed domain or a subdomain of one, \<^verbatim>\<open>Good\<close>
  otherwise.  The classes \<^verbatim>\<open>Domain\<close> and \<^verbatim>\<open>DomainChecker\<close> are embedded below,
  function by function, together with the three standard algorithms they call.
\<close>

subsection \<open>Characters\<close>

text \<open>
  A \<^verbatim>\<open>std::string\<close> is a sequence of bytes, a \<^typ>\<open>string\<close> here.  The comparator of
  \<^verbatim>\<open>Domain::operator<\<close> applies the built-in \<^verbatim>\<open>l < r\<close> to two values of type
  \<^verbatim>\<open>char\<close>.  Whether plain \<^verbatim>\<open>char\<close> is signed is fixed by the platform (signed on
  x86, unsigned on ARM Linux), so the embedding takes it as the parameter
  \<open>signed_char\<close>: a byte \<open>n \<ge> 128\<close> has the value \<open>n - 256\<close> when \<^verbatim>\<open>char\<close> is signed.
  Both operands are promoted to \<^verbatim>\<open>int\<close> before they are compared.
\<close>

definition char_value :: "bool \<Rightarrow> char \<Rightarrow> int" where
  "char_value signed_char c =
     (let n = of_char c in if signed_char \<and> 128 \<le> n then n - 256 else n)"

definition char_less :: "bool \<Rightarrow> char \<Rightarrow> char \<Rightarrow> bool" where
  "char_less signed_char l r \<longleftrightarrow> char_value signed_char l < char_value signed_char r"

subsection \<open>Standard algorithms\<close>

text \<open>
  \<^verbatim>\<open>std::lexicographical_compare(first1, last1, first2, last2, cmp)\<close>: walk both ranges
  in step; the first position where \<open>cmp\<close> tells the elements apart decides; when a
  range is exhausted the result is whether the first one ended and the second did not.
\<close>

fun lexicographical_compare :: "('a \<Rightarrow> 'a \<Rightarrow> bool) \<Rightarrow> 'a list \<Rightarrow> 'a list \<Rightarrow> bool" where
  "lexicographical_compare cmp (x # xs) (y # ys) =
     (if cmp x y then True
      else if cmp y x then False
      else lexicographical_compare cmp xs ys)"
| "lexicographical_compare cmp [] ys = (ys \<noteq> [])"
| "lexicographical_compare cmp (x # xs) [] = False"

text \<open>
  \<^verbatim>\<open>std::string_view::ends_with(x)\<close>: the view is at least as long as \<open>x\<close> and its
  last \<open>size x\<close> characters are \<open>x\<close>.
\<close>

definition ends_with :: "string \<Rightarrow> string \<Rightarrow> bool" where
  "ends_with s x \<longleftrightarrow> length x \<le> length s \<and> drop (length s - length x) s = x"

text \<open>
  \<^verbatim>\<open>std::sort(first, last)\<close> with a comparator \<open>lt\<close>.  The standard fixes the result
  only: a permutation of the range in which no element is \<open>lt\<close> than one before
  it.  The embedding sorts by insertion; \<open>std_sort_unique\<close> below shows that for the
  order of \<^verbatim>\<open>Domain\<close> every algorithm with that contract returns the same sequence.
\<close>

fun sort_insert :: "('a \<Rightarrow> 'a \<Rightarrow> bool) \<Rightarrow> 'a \<Rightarrow> 'a list \<Rightarrow> 'a list" where
  "sort_insert lt x [] = [x]"
| "sort_insert lt x (y # ys) =
     (if lt x y then x # y # ys else y # sort_insert lt x ys)"

fun std_sort :: "('a \<Rightarrow> 'a \<Rightarrow> bool) \<Rightarrow> 'a list \<Rightarrow> 'a list" where
  "std_sort lt [] = []"
| "std_sort lt (x # xs) = sort_insert lt x (std_sort lt xs)"

text \<open>
  \<^verbatim>\<open>std::unique(first, last, p)\<close> followed by \<^verbatim>\<open>erase(new_end, end)\<close>: the first
  element is kept; every further element is compared with the last element kept so far
  (\<^verbatim>\<open>p(*result, *first)\<close>) and is kept only if \<open>p\<close> is false.  \<open>unique_loop p k ys\<close> is
  the loop with \<open>k\<close> the element under \<^verbatim>\<open>result\<close> and \<open>ys\<close> the unread rest.  The
  standard words its contract for an equivalence relation \<open>p\<close>; the predicate that
  \<^verbatim>\<open>PrepareForbiddenDomains\<close> passes is not transitive, so the embedding follows the
  loop itself, which the library implementations share.
\<close>

fun unique_loop :: "('a \<Rightarrow> 'a \<Rightarrow> bool) \<Rightarrow> 'a \<Rightarrow> 'a list \<Rightarrow> 'a list" where
  "unique_loop p k [] = []"
| "unique_loop p k (y # ys) =
     (if p k y then unique_loop p k ys else y # unique_loop p y ys)"

fun std_unique :: "('a \<Rightarrow> 'a \<Rightarrow> bool) \<Rightarrow> 'a list \<Rightarrow> 'a list" where
  "std_unique p [] = []"
| "std_unique p (x # xs) = x # unique_loop p x xs"

text \<open>
  Reading through an iterator outside \<^verbatim>\<open>[begin, end)\<close> is undefined behaviour in C++;
  the embedding makes it the error value \<open>OutOfRange\<close>.
\<close>

datatype error = OutOfRange

definition deref :: "'a list \<Rightarrow> nat \<Rightarrow> error + 'a" where
  "deref xs i = (if i < length xs then Inr (xs ! i) else Inl OutOfRange)"

text \<open>
  \<^verbatim>\<open>std::upper_bound(first, last, value)\<close> with a comparator \<open>lt\<close>: the binary search
  of the standard library, on positions.  \<open>first\<close> is the left end of the part still
  searched, \<open>len\<close> its length; the element in the middle is read and compared with
  \<^verbatim>\<open>value < *it\<close>.
\<close>

function upper_bound_loop ::
  "('a \<Rightarrow> 'a \<Rightarrow> bool) \<Rightarrow> 'a list \<Rightarrow> 'a \<Rightarrow> nat \<Rightarrow> nat \<Rightarrow> error + nat" where
  "upper_bound_loop lt xs v first len =
     (if len = 0 then Inr first
      else let step = len div 2; it = first + step in
        (case deref xs it of
           Inl e \<Rightarrow> Inl e
         | Inr x \<Rightarrow>
             if \<not> lt v x then upper_bound_loop lt xs v (it + 1) (len - (step + 1))
             else upper_bound_loop lt xs v first step))"
  by pat_completeness auto
termination
  by (relation "measure (\<lambda>(lt, xs, v, first, len). len)") auto

declare upper_bound_loop.simps [simp del]

definition std_upper_bound :: "('a \<Rightarrow> 'a \<Rightarrow> bool) \<Rightarrow> 'a list \<Rightarrow> 'a \<Rightarrow> error + nat" where
  "std_upper_bound lt xs v = upper_bound_loop lt xs v 0 (length xs)"

subsection \<open>Class \<^verbatim>\<open>Domain\<close>\<close>

text \<open>The constructor stores the string as it is; it has no failing branch.\<close>

datatype Domain = DomainC (domain_name: string)

text \<open>\<^verbatim>\<open>operator==\<close>: equality of the stored names.\<close>

definition Domain_eq :: "Domain \<Rightarrow> Domain \<Rightarrow> bool" where
  "Domain_eq a b \<longleftrightarrow> domain_name a = domain_name b"

text \<open>
  \<^verbatim>\<open>operator<\<close>: \<^verbatim>\<open>lexicographical_compare\<close> over the reverse iterators of both names,
  with the lambda \<^verbatim>\<open>(l == '.' || l < r) && (r != '.')\<close>.
\<close>

definition dot_first :: "bool \<Rightarrow> char \<Rightarrow> char \<Rightarrow> bool" where
  "dot_first signed_char l r \<longleftrightarrow>
     (l = CHR ''.'' \<or> char_less signed_char l r) \<and> r \<noteq> CHR ''.''"

abbreviation dot_lex :: "bool \<Rightarrow> string \<Rightarrow> string \<Rightarrow> bool" where
  "dot_lex signed_char \<equiv> lexicographical_compare (dot_first signed_char)"

definition Domain_less :: "bool \<Rightarrow> Domain \<Rightarrow> Domain \<Rightarrow> bool" where
  "Domain_less signed_char a b \<longleftrightarrow>
     dot_lex signed_char (rev (domain_name a)) (rev (domain_name b))"

text \<open>
  \<^verbatim>\<open>IsSubdomain\<close>: the size test, then \<^verbatim>\<open>('.' + name).ends_with("." + other.name)\<close>.
\<close>

definition IsSubdomain :: "Domain \<Rightarrow> Domain \<Rightarrow> bool" where
  "IsSubdomain d other \<longleftrightarrow>
     length (domain_name other) \<le> length (domain_name d) \<and>
     ends_with (CHR ''.'' # domain_name d) (''.'' @ domain_name other)"

subsection \<open>Class \<^verbatim>\<open>DomainChecker\<close>\<close>

record DomainChecker =
  forbidden_domains :: "Domain list"

text \<open>
  \<^verbatim>\<open>PrepareForbiddenDomains\<close>: sort, then \<^verbatim>\<open>unique\<close> with the predicate "one of the two
  is a subdomain of the other", then erase the tail.
\<close>

definition related :: "Domain \<Rightarrow> Domain \<Rightarrow> bool" where
  "related lhs rhs \<longleftrightarrow> IsSubdomain lhs rhs \<or> IsSubdomain rhs lhs"

definition PrepareForbiddenDomains :: "bool \<Rightarrow> DomainChecker \<Rightarrow> DomainChecker" where
  "PrepareForbiddenDomains signed_char c =
     c\<lparr>forbidden_domains :=
         std_unique related (std_sort (Domain_less signed_char) (forbidden_domains c))\<rparr>"

text \<open>The constructor copies the range into the vector and normalises it.\<close>

definition DomainChecker_ctor :: "bool \<Rightarrow> Domain list \<Rightarrow> DomainChecker" where
  "DomainChecker_ctor signed_char ds =
     PrepareForbiddenDomains signed_char \<lparr>forbidden_domains = ds\<rparr>"

text \<open>
  \<^verbatim>\<open>IsForbidden\<close>: \<^verbatim>\<open>upper_bound\<close>; at \<^verbatim>\<open>begin()\<close> the answer is false, otherwise the
  element before the bound is read and tested.
\<close>

definition IsForbidden :: "bool \<Rightarrow> DomainChecker \<Rightarrow> Domain \<Rightarrow> error + bool" where
  "IsForbidden signed_char c d =
     (case std_upper_bound (Domain_less signed_char) (forbidden_domains c) d of
        Inl e \<Rightarrow> Inl e
      | Inr find_domain \<Rightarrow>
          if find_domain = 0 then Inr False
          else (case deref (forbidden_domains c) (find_domain - 1) of
                  Inl e \<Rightarrow> Inl e
                | Inr candidate \<Rightarrow> Inr (IsSubdomain d candidate)))"

subsection \<open>The program\<close>

text \<open>
  \<^verbatim>\<open>main\<close> builds the checker from the block-list and writes one line per query, in the
  order of the queries.  Reading the two sequences from \<^verbatim>\<open>std::cin\<close> is outside the
  embedding: \<open>main_output\<close> starts from the two vectors \<^verbatim>\<open>forbidden_domains\<close> and
  \<^verbatim>\<open>test_domains\<close>.
\<close>

fun print_results :: "bool \<Rightarrow> DomainChecker \<Rightarrow> Domain list \<Rightarrow> error + string list" where
  "print_results signed_char c [] = Inr []"
| "print_results signed_char c (d # ds) =
     (case IsForbidden signed_char c d of
        Inl e \<Rightarrow> Inl e
      | Inr b \<Rightarrow>
          (case print_results signed_char c ds of
             Inl e \<Rightarrow> Inl e
           | Inr ls \<Rightarrow> Inr ((if b then ''Bad'' else ''Good'') # ls)))"

definition main_output :: "bool \<Rightarrow> Domain list \<Rightarrow> Domain list \<Rightarrow> error + string list" where
  "main_output signed_char forbidden test_domains =
     print_results signed_char (DomainChecker_ctor signed_char forbidden) test_domains"

subsection \<open>Notions used in the statements\<close>

text \<open>
  \<open>Domain_le\<close> is "not greater", the order in which \<^verbatim>\<open>std::sort\<close> leaves a range.
  A sequence is \<open>minimal_sorted\<close> when every element is less than every later one and
  no later element is a subdomain of an earlier one.
\<close>

abbreviation Domain_le :: "bool \<Rightarrow> Domain \<Rightarrow> Domain \<Rightarrow> bool" where
  "Domain_le signed_char a b \<equiv> \<not> Domain_less signed_char b a"

abbreviation minimal_sorted :: "bool \<Rightarrow> Domain list \<Rightarrow> bool" where
  "minimal_sorted signed_char \<equiv>
     sorted_wrt (\<lambda>a b. Domain_less signed_char a b \<and> \<not> IsSubdomain b a)"

text \<open>
  The class offers one member function after construction, \<^verbatim>\<open>IsForbidden\<close>.  It is
  declared \<^verbatim>\<open>const\<close>, but the vector is \<^verbatim>\<open>mutable\<close>, so the declaration alone would
  allow a write; its body only reads.  \<open>IsForbidden_call\<close> is one call as a step on the
  object: the answer and the object after the call.  \<open>after_calls\<close> is the object after
  a sequence of calls.
\<close>

definition IsForbidden_call ::
  "bool \<Rightarrow> Domain \<Rightarrow> DomainChecker \<Rightarrow> (error + bool) \<times> DomainChecker" where
  "IsForbidden_call signed_char d c = (IsForbidden signed_char c d, c)"

fun after_calls :: "bool \<Rightarrow> DomainChecker \<Rightarrow> Domain list \<Rightarrow> DomainChecker" where
  "after_calls signed_char c [] = c"
| "after_calls signed_char c (d # ds) =
     after_calls signed_char (snd (IsForbidden_call signed_char d c)) ds"

section \<open>The order of domain names\<close>

text \<open>
  The lambda of \<^verbatim>\<open>operator<\<close> is a strict linear order on characters with the dot as
  least element, for either signedness of \<^verbatim>\<open>char\<close>.  So \<open>dot_lex\<close> is a strict linear
  order on strings, in which the strings that extend \<open>k\<close> by a dot and anything else
  come directly after \<open>k\<close> (\<open>lex_between\<close>).
\<close>

lemma of_char_int_bounds: "0 \<le> (of_char c :: int)" "(of_char c :: int) < 256"
  by (cases c; simp)+

lemma char_value_inj: "char_value s a = char_value s b \<Longrightarrow> a = b"
proof -
  assume h: "char_value s a = char_value s b"
  have "(of_char a :: int) = of_char b"
    using h of_char_int_bounds [of a] of_char_int_bounds [of b]
    by (simp add: char_value_def Let_def split: if_splits)
  then show "a = b" by simp
qed

lemma char_less_irrefl: "\<not> char_less s c c"
  by (simp add: char_less_def)

lemma char_less_trans: "char_less s a b \<Longrightarrow> char_less s b c \<Longrightarrow> char_less s a c"
  by (simp add: char_less_def)

lemma char_less_total: "a \<noteq> b \<Longrightarrow> char_less s a b \<or> char_less s b a"
  unfolding char_less_def using char_value_inj [of s a b]
  by (cases "char_value s a" "char_value s b" rule: linorder_cases) simp_all

lemma dot_first_irrefl: "\<not> dot_first s c c"
  by (simp add: dot_first_def char_less_irrefl)

lemma dot_first_asym: "dot_first s a b \<Longrightarrow> \<not> dot_first s b a"
  using char_less_trans [of s a b a] char_less_irrefl [of s a]
  by (auto simp: dot_first_def)

lemma dot_first_trans: "dot_first s a b \<Longrightarrow> dot_first s b c \<Longrightarrow> dot_first s a c"
  using char_less_trans [of s a b c] by (auto simp: dot_first_def)

lemma dot_first_total: "\<not> dot_first s a b \<Longrightarrow> \<not> dot_first s b a \<Longrightarrow> a = b"
  using char_less_total [of a b s] by (auto simp: dot_first_def)

lemma dot_first_dot: "dot_first s (CHR ''.'') c \<longleftrightarrow> c \<noteq> CHR ''.''"
  by (simp add: dot_first_def)

lemma dot_first_to_dot: "\<not> dot_first s c (CHR ''.'')"
  by (simp add: dot_first_def)

lemma lex_irrefl: "\<not> dot_lex s xs xs"
  by (induction xs) (simp_all add: dot_first_irrefl)

lemma lex_Cons_Cons:
  "dot_lex s (x # xs) (y # ys) \<longleftrightarrow> dot_first s x y \<or> (x = y \<and> dot_lex s xs ys)"
  using dot_first_total [of s x y] dot_first_irrefl [of s x]
  by auto

lemma lex_Nil_right: "\<not> dot_lex s xs []"
  by (cases xs) simp_all

lemma lex_trans: "dot_lex s xs ys \<Longrightarrow> dot_lex s ys zs \<Longrightarrow> dot_lex s xs zs"
proof (induction xs arbitrary: ys zs)
  case Nil
  then show ?case by (cases zs) (simp_all add: lex_Nil_right)
next
  case (Cons x xs)
  from Cons.prems obtain y ys' where ys: "ys = y # ys'"
    by (cases ys) simp_all
  from Cons.prems ys obtain z zs' where zs: "zs = z # zs'"
    by (cases zs) simp_all
  from Cons.prems Cons.IH [of ys' zs'] show ?case
    unfolding ys zs lex_Cons_Cons
    using dot_first_trans [of s x y z] by blast
qed

lemma lex_total: "\<not> dot_lex s xs ys \<Longrightarrow> \<not> dot_lex s ys xs \<Longrightarrow> xs = ys"
proof (induction xs arbitrary: ys)
  case Nil
  then show ?case by (cases ys) simp_all
next
  case (Cons x xs)
  from Cons.prems obtain y ys' where ys: "ys = y # ys'"
    by (cases ys) simp_all
  from Cons.prems have "x = y" "\<not> dot_lex s xs ys'" "\<not> dot_lex s ys' xs"
    unfolding ys using dot_first_total [of s x y]
    by (auto simp: lex_Cons_Cons simp del: lexicographical_compare.simps(1))
  with Cons.IH [of ys'] show ?case by (simp add: ys)
qed

lemma lex_asym: "dot_lex s xs ys \<Longrightarrow> \<not> dot_lex s ys xs"
  using lex_trans [of s xs ys xs] lex_irrefl [of s xs] by blast

lemma lex_append_left: "\<not> dot_lex s (xs @ ys) xs"
  by (induction xs) (simp_all add: lex_Nil_right dot_first_irrefl)

lemma lex_between:
  "\<not> dot_lex s p k \<Longrightarrow> \<not> dot_lex s (k @ CHR ''.'' # t) p \<Longrightarrow>
   p = k \<or> (\<exists>t'. p = k @ CHR ''.'' # t')"
proof (induction k arbitrary: p)
  case Nil
  then show ?case
    by (cases p) (auto simp: lex_Cons_Cons dot_first_dot simp del: lexicographical_compare.simps(1))
next
  case (Cons a k)
  from Cons.prems obtain c p' where p: "p = c # p'"
    by (cases p) simp_all
  from Cons.prems have "c = a" "\<not> dot_lex s p' k" "\<not> dot_lex s (k @ CHR ''.'' # t) p'"
    unfolding p using dot_first_total [of s a c]
    by (auto simp: lex_Cons_Cons simp del: lexicographical_compare.simps(1))
  with Cons.IH [of p'] show ?case by (auto simp: p)
qed

section \<open>The subdomain relation\<close>

text \<open>
  \<^verbatim>\<open>IsSubdomain\<close> in terms of \<^const>\<open>suffix\<close>, and on the reversed names that
  \<^verbatim>\<open>operator<\<close> reads.  The subdomains of \<open>k\<close> form an interval of the order that
  starts at \<open>k\<close>: \<open>IsSubdomain_not_less\<close> and \<open>IsSubdomain_between\<close>.
\<close>

lemma ends_with_suffix: "ends_with s x \<longleftrightarrow> suffix x s"
proof
  assume "ends_with s x"
  then have "s = take (length s - length x) s @ x"
    by (metis append_take_drop_id ends_with_def)
  then show "suffix x s" by (metis suffixI)
next
  assume "suffix x s"
  then obtain zs where "s = zs @ x" by (auto simp: suffix_def)
  then show "ends_with s x" by (simp add: ends_with_def)
qed

lemma IsSubdomain_iff:
  "IsSubdomain a b \<longleftrightarrow>
     domain_name a = domain_name b \<or> suffix (CHR ''.'' # domain_name b) (domain_name a)"
proof -
  have "suffix (CHR ''.'' # domain_name b) (domain_name a) \<Longrightarrow>
        length (domain_name b) \<le> length (domain_name a)"
    by (drule suffix_length_le) simp
  then show ?thesis
    by (auto simp: IsSubdomain_def ends_with_suffix suffix_Cons)
qed

lemma IsSubdomain_rev:
  "IsSubdomain a b \<longleftrightarrow>
     a = b \<or> (\<exists>t. rev (domain_name a) = rev (domain_name b) @ CHR ''.'' # t)"
proof -
  have "suffix (CHR ''.'' # domain_name b) (domain_name a) \<longleftrightarrow>
        (\<exists>t. rev (domain_name a) = rev (domain_name b) @ CHR ''.'' # t)"
  proof
    assume "suffix (CHR ''.'' # domain_name b) (domain_name a)"
    then obtain zs where "domain_name a = zs @ CHR ''.'' # domain_name b"
      by (auto simp: suffix_def)
    then have "rev (domain_name a) = rev (domain_name b) @ CHR ''.'' # rev zs" by simp
    then show "\<exists>t. rev (domain_name a) = rev (domain_name b) @ CHR ''.'' # t" ..
  next
    assume "\<exists>t. rev (domain_name a) = rev (domain_name b) @ CHR ''.'' # t"
    then obtain t where "rev (domain_name a) = rev (domain_name b) @ CHR ''.'' # t" ..
    then have "rev (rev (domain_name a)) = rev (rev (domain_name b) @ CHR ''.'' # t)"
      by simp
    then have "domain_name a = rev t @ CHR ''.'' # domain_name b" by simp
    then show "suffix (CHR ''.'' # domain_name b) (domain_name a)"
      by (metis suffixI)
  qed
  moreover have "domain_name a = domain_name b \<longleftrightarrow> a = b"
    by (cases a; cases b) simp
  ultimately show ?thesis
    by (simp add: IsSubdomain_iff)
qed

lemma IsSubdomain_refl: "IsSubdomain d d"
  by (simp add: IsSubdomain_iff)

lemma IsSubdomain_trans: "IsSubdomain a b \<Longrightarrow> IsSubdomain b c \<Longrightarrow> IsSubdomain a c"
  unfolding IsSubdomain_iff
  by (metis suffix_ConsD suffix_order.order_trans)

lemma Domain_less_irrefl: "\<not> Domain_less s a a"
  by (simp add: Domain_less_def lex_irrefl)

lemma Domain_less_trans: "Domain_less s a b \<Longrightarrow> Domain_less s b c \<Longrightarrow> Domain_less s a c"
  unfolding Domain_less_def by (rule lex_trans)

lemma Domain_less_asym: "Domain_less s a b \<Longrightarrow> \<not> Domain_less s b a"
  unfolding Domain_less_def by (rule lex_asym)

lemma Domain_less_total: "\<not> Domain_less s a b \<Longrightarrow> \<not> Domain_less s b a \<Longrightarrow> a = b"
  unfolding Domain_less_def using lex_total [of s "rev (domain_name a)" "rev (domain_name b)"]
  by (simp add: Domain.expand)

lemma Domain_le_trans:
  "\<not> Domain_less s b a \<Longrightarrow> \<not> Domain_less s c b \<Longrightarrow> \<not> Domain_less s c a"
  using Domain_less_total [of s b c] Domain_less_trans [of s b c a] by blast

lemma Domain_le_less_trans:
  "\<not> Domain_less s b a \<Longrightarrow> Domain_less s b c \<Longrightarrow> Domain_less s a c"
  using Domain_less_total [of s a b] Domain_less_trans [of s a b c] by blast

lemma Domain_less_le_trans:
  "Domain_less s a b \<Longrightarrow> \<not> Domain_less s c b \<Longrightarrow> Domain_less s a c"
  using Domain_less_total [of s b c] Domain_less_trans [of s a b c] by blast

lemma IsSubdomain_not_less: "IsSubdomain d p \<Longrightarrow> \<not> Domain_less s d p"
  unfolding IsSubdomain_rev Domain_less_def
  using lex_append_left lex_irrefl by auto

lemma IsSubdomain_between:
  assumes "IsSubdomain q k" and "\<not> Domain_less s p k" and "\<not> Domain_less s q p"
  shows "IsSubdomain p k"
proof (cases "q = k")
  case True
  with assms have "p = k" using Domain_less_total [of s p k] by simp
  then show ?thesis by (simp add: IsSubdomain_refl)
next
  case False
  with assms(1) obtain t where "rev (domain_name q) = rev (domain_name k) @ CHR ''.'' # t"
    by (auto simp: IsSubdomain_rev)
  with assms(2,3) have
    "rev (domain_name p) = rev (domain_name k) \<or>
     (\<exists>t'. rev (domain_name p) = rev (domain_name k) @ CHR ''.'' # t')"
    unfolding Domain_less_def
    using lex_between [of s "rev (domain_name p)" "rev (domain_name k)" t] by simp
  moreover have "rev (domain_name p) = rev (domain_name k) \<longleftrightarrow> p = k"
    by (cases p; cases k) simp
  ultimately show ?thesis by (simp add: IsSubdomain_rev)
qed

section \<open>Sorting\<close>

text \<open>
  \<open>std_sort\<close> returns a sorted permutation, and for \<open>Domain_less\<close> there is only one.
\<close>

lemma mset_sort_insert: "mset (sort_insert lt x xs) = add_mset x (mset xs)"
  by (induction xs) simp_all

lemma mset_std_sort: "mset (std_sort lt xs) = mset xs"
  by (induction xs) (simp_all add: mset_sort_insert)

lemma set_std_sort: "set (std_sort lt xs) = set xs"
  by (metis mset_std_sort set_mset_mset)

lemma sorted_sort_insert:
  "sorted_wrt (Domain_le s) xs \<Longrightarrow> sorted_wrt (Domain_le s) (sort_insert (Domain_less s) x xs)"
proof (induction xs)
  case Nil
  then show ?case by simp
next
  case (Cons y ys)
  show ?case
  proof (cases "Domain_less s x y")
    case True
    then have "\<forall>z\<in>set (y # ys). Domain_le s x z"
      using Cons.prems Domain_less_asym [of s x y] Domain_less_le_trans [of s x y]
      by (auto dest: Domain_less_asym)
    with True Cons.prems show ?thesis by simp
  next
    case False
    have "set (sort_insert (Domain_less s) x ys) = insert x (set ys)"
      by (metis mset_sort_insert set_mset_add_mset_insert set_mset_mset)
    with False Cons show ?thesis by simp
  qed
qed

lemma sorted_std_sort: "sorted_wrt (Domain_le s) (std_sort (Domain_less s) xs)"
  by (induction xs) (simp_all add: sorted_sort_insert)

lemma sorted_mset_unique:
  "sorted_wrt (Domain_le s) xs \<Longrightarrow> sorted_wrt (Domain_le s) ys \<Longrightarrow> mset xs = mset ys \<Longrightarrow>
   xs = ys"
proof (induction xs arbitrary: ys)
  case Nil
  then show ?case by simp
next
  case (Cons x xs)
  from Cons.prems(3) obtain y ys' where ys: "ys = y # ys'"
    by (cases ys) auto
  have "x \<in> set ys" "y \<in> set (x # xs)"
    using Cons.prems(3) ys by (metis list.set_intros(1) set_mset_mset)+
  then have "Domain_le s y x" "Domain_le s x y"
    using Cons.prems(1,2) ys by (auto simp: Domain_less_irrefl)
  then have "x = y" by (rule Domain_less_total [symmetric, rotated])
  with Cons.prems ys Cons.IH [of ys'] show ?case by simp
qed

lemma std_sort_unique:
  "mset ys = mset xs \<Longrightarrow> sorted_wrt (Domain_le s) ys \<Longrightarrow> ys = std_sort (Domain_less s) xs"
  by (rule sorted_mset_unique [of s]) (simp_all add: sorted_std_sort mset_std_sort)

section \<open>Removing the redundant entries\<close>

text \<open>
  On a sorted sequence \<^verbatim>\<open>unique\<close> drops exactly the subdomains of the element kept
  last.  What remains is \<open>minimal_sorted\<close>, and every element of the input is a
  subdomain of an element that remains.
\<close>

lemma set_unique_loop: "set (unique_loop p k ys) \<subseteq> set ys"
  by (induction ys arbitrary: k) auto

lemma set_std_unique: "set (std_unique p xs) \<subseteq> set xs"
  using set_unique_loop [of p] by (cases xs) auto

lemma related_sorted: "Domain_le s k y \<Longrightarrow> related k y \<longleftrightarrow> IsSubdomain y k"
  using IsSubdomain_not_less [of k y s] Domain_less_total [of s k y]
  by (auto simp: related_def IsSubdomain_refl)

lemma minimal_sorted_unique_loop:
  "sorted_wrt (Domain_le s) (k # ys) \<Longrightarrow> minimal_sorted s (k # unique_loop related k ys)"
proof (induction ys arbitrary: k)
  case Nil
  then show ?case by simp
next
  case (Cons y ys)
  from Cons.prems have ky: "Domain_le s k y" and kys: "sorted_wrt (Domain_le s) (k # ys)"
    and yys: "sorted_wrt (Domain_le s) (y # ys)"
    by simp_all
  show ?case
  proof (cases "related k y")
    case True
    with Cons.IH [OF kys] show ?thesis by simp
  next
    case False
    then have nsub: "\<not> IsSubdomain y k" using related_sorted [OF ky] by simp
    then have "k \<noteq> y" using IsSubdomain_refl by auto
    with ky have lt: "Domain_less s k y" using Domain_less_total [of s k y] by auto
    have "Domain_less s k z \<and> \<not> IsSubdomain z k" if "z \<in> set (unique_loop related y ys)" for z
    proof -
      from that have "z \<in> set ys" using set_unique_loop by fast
      with yys have yz: "Domain_le s y z" by simp
      from lt yz have "Domain_less s k z" by (rule Domain_less_le_trans)
      moreover have "\<not> IsSubdomain z k"
      proof
        assume "IsSubdomain z k"
        then have "IsSubdomain y k" using ky yz by (rule IsSubdomain_between)
        with nsub show False ..
      qed
      ultimately show ?thesis ..
    qed
    with False lt nsub Cons.IH [OF yys] show ?thesis by simp
  qed
qed

lemma cover_unique_loop:
  "sorted_wrt (Domain_le s) (k # ys) \<Longrightarrow> y \<in> set ys \<Longrightarrow>
   \<exists>r\<in>set (k # unique_loop related k ys). IsSubdomain y r"
proof (induction ys arbitrary: k)
  case Nil
  then show ?case by simp
next
  case (Cons x xs)
  from Cons.prems have kx: "Domain_le s k x" and kxs: "sorted_wrt (Domain_le s) (k # xs)"
    and xxs: "sorted_wrt (Domain_le s) (x # xs)"
    by simp_all
  show ?case
  proof (cases "related k x")
    case True
    then have "IsSubdomain x k" using related_sorted [OF kx] by simp
    with True Cons.prems(2) Cons.IH [OF kxs] show ?thesis by auto
  next
    case False
    show ?thesis
    proof (cases "y = x")
      case True
      with False show ?thesis by (auto simp: IsSubdomain_refl)
    next
      case neq: False
      with Cons.prems(2) have "y \<in> set xs" by simp
      with Cons.IH [OF xxs] False show ?thesis by auto
    qed
  qed
qed

lemma minimal_sorted_std_unique:
  "sorted_wrt (Domain_le s) xs \<Longrightarrow> minimal_sorted s (std_unique related xs)"
  by (cases xs) (simp, simp only: std_unique.simps minimal_sorted_unique_loop)

lemma cover_std_unique:
  "sorted_wrt (Domain_le s) xs \<Longrightarrow> y \<in> set xs \<Longrightarrow>
   \<exists>r\<in>set (std_unique related xs). IsSubdomain y r"
proof (cases xs)
  case Nil
  then show "y \<in> set xs \<Longrightarrow> ?thesis" by simp
next
  case (Cons x xs')
  assume "sorted_wrt (Domain_le s) xs" "y \<in> set xs"
  then show ?thesis
    using cover_unique_loop [of s x xs' y] Cons
    by (auto simp: IsSubdomain_refl)
qed

section \<open>The binary search\<close>

text \<open>
  The search never reads outside the part \<open>[first, first + len)\<close>, so it returns a
  position on every sequence.  Where \<open>lt v\<close> is false on a front part of the sequence
  and true behind it, the position returned is where it turns true.
\<close>

lemma upper_bound_loop_total:
  "first + len \<le> length xs \<Longrightarrow>
   \<exists>r. upper_bound_loop lt xs v first len = Inr r \<and> first \<le> r \<and> r \<le> first + len"
proof (induction lt xs v first len rule: upper_bound_loop.induct)
  case (1 lt xs v first len)
  show ?case
  proof (cases "len = 0")
    case True
    then show ?thesis by (simp add: upper_bound_loop.simps)
  next
    case False
    define step where "step = len div 2"
    define it where "it = first + step"
    from False "1.prems" have it: "it < length xs" and d: "deref xs it = Inr (xs ! it)"
      by (auto simp: it_def step_def deref_def)
    show ?thesis
    proof (cases "lt v (xs ! it)")
      case True
      have "first + step \<le> length xs" using it by (simp add: it_def)
      from "1.IH"(2) [OF False step_def it_def d _ this] True
      obtain r where "upper_bound_loop lt xs v first step = Inr r" "first \<le> r" "r \<le> first + step"
        by auto
      moreover have "upper_bound_loop lt xs v first len = upper_bound_loop lt xs v first step"
        using False True d
        by (subst upper_bound_loop.simps) (simp add: step_def [symmetric] it_def [symmetric] Let_def)
      ultimately show ?thesis using False by (auto simp: step_def)
    next
      case nlt: False
      have "it + 1 + (len - (step + 1)) \<le> length xs"
        using "1.prems" False by (simp add: it_def step_def)
      from "1.IH"(1) [OF False step_def it_def d nlt this]
      obtain r where "upper_bound_loop lt xs v (it + 1) (len - (step + 1)) = Inr r"
        "it + 1 \<le> r" "r \<le> it + 1 + (len - (step + 1))"
        by auto
      moreover have "upper_bound_loop lt xs v first len =
          upper_bound_loop lt xs v (it + 1) (len - (step + 1))"
        using False nlt d
        by (subst upper_bound_loop.simps) (simp add: step_def [symmetric] it_def [symmetric] Let_def)
      ultimately show ?thesis using False by (auto simp: step_def it_def)
    qed
  qed
qed

lemma upper_bound_loop_partition:
  assumes "\<And>i j. i \<le> j \<Longrightarrow> j < length xs \<Longrightarrow> lt v (xs ! i) \<Longrightarrow> lt v (xs ! j)"
    and "first + len \<le> length xs"
    and "upper_bound_loop lt xs v first len = Inr r"
  shows "(\<forall>i. first \<le> i \<and> i < r \<longrightarrow> \<not> lt v (xs ! i)) \<and>
         (\<forall>i. r \<le> i \<and> i < first + len \<longrightarrow> lt v (xs ! i))"
  using assms
proof (induction lt xs v first len rule: upper_bound_loop.induct)
  case (1 lt xs v first len)
  note mono = "1.prems"(1)
  show ?case
  proof (cases "len = 0")
    case True
    with "1.prems"(3) have "first = r" by (simp add: upper_bound_loop.simps)
    with True show ?thesis by auto
  next
    case False
    define step where "step = len div 2"
    define it where "it = first + step"
    from False "1.prems"(2) have it: "it < length xs" and d: "deref xs it = Inr (xs ! it)"
      by (auto simp: it_def step_def deref_def)
    show ?thesis
    proof (cases "lt v (xs ! it)")
      case True
      have le: "first + step \<le> length xs" using it by (simp add: it_def)
      have "upper_bound_loop lt xs v first len = upper_bound_loop lt xs v first step"
        using False True d
        by (subst upper_bound_loop.simps) (simp add: step_def [symmetric] it_def [symmetric] Let_def)
      with "1.prems"(3) have r: "upper_bound_loop lt xs v first step = Inr r" by simp
      from "1.IH"(2) [OF False step_def it_def d _ mono le r] True
      have ih: "\<forall>i. first \<le> i \<and> i < r \<longrightarrow> \<not> lt v (xs ! i)"
        "\<forall>i. r \<le> i \<and> i < first + step \<longrightarrow> lt v (xs ! i)"
        by auto
      have "lt v (xs ! i)" if "r \<le> i" "i < first + len" for i
      proof (cases "i < first + step")
        case True
        with ih(2) that show ?thesis by simp
      next
        case False
        then have "it \<le> i" by (simp add: it_def)
        moreover have "i < length xs" using that "1.prems"(2) by simp
        ultimately show ?thesis using True by (rule mono)
      qed
      with ih(1) show ?thesis by blast
    next
      case nlt: False
      have le: "it + 1 + (len - (step + 1)) \<le> length xs"
        using "1.prems"(2) False by (simp add: it_def step_def)
      have "upper_bound_loop lt xs v first len =
          upper_bound_loop lt xs v (it + 1) (len - (step + 1))"
        using False nlt d
        by (subst upper_bound_loop.simps) (simp add: step_def [symmetric] it_def [symmetric] Let_def)
      with "1.prems"(3) have r: "upper_bound_loop lt xs v (it + 1) (len - (step + 1)) = Inr r"
        by simp
      from "1.IH"(1) [OF False step_def it_def d nlt mono le r]
      have ih: "\<forall>i. it + 1 \<le> i \<and> i < r \<longrightarrow> \<not> lt v (xs ! i)"
        "\<forall>i. r \<le> i \<and> i < it + 1 + (len - (step + 1)) \<longrightarrow> lt v (xs ! i)"
        by auto
      have eq: "it + 1 + (len - (step + 1)) = first + len"
        using False by (simp add: it_def step_def)
      have "\<not> lt v (xs ! i)" if "first \<le> i" "i < r" for i
      proof (cases "it + 1 \<le> i")
        case True
        with ih(1) that show ?thesis by simp
      next
        case False
        then have "i \<le> it" by simp
        then show ?thesis using it nlt mono [of i it] by blast
      qed
      with ih(2) eq show ?thesis by simp
    qed
  qed
qed

section \<open>The lookup\<close>

text \<open>
  On a \<open>minimal_sorted\<close> sequence the element before the upper bound of \<open>q\<close> is the
  only candidate: if \<open>q\<close> is a subdomain of any element, it is a subdomain of that one.
\<close>

lemma std_upper_bound_total:
  "\<exists>r. std_upper_bound lt xs v = Inr r \<and> r \<le> length xs"
  using upper_bound_loop_total [of 0 "length xs" xs lt v]
  by (auto simp: std_upper_bound_def)

lemma IsForbidden_total: "\<exists>b. IsForbidden s c d = Inr b"
proof -
  obtain r where r: "std_upper_bound (Domain_less s) (forbidden_domains c) d = Inr r"
    and le: "r \<le> length (forbidden_domains c)"
    using std_upper_bound_total [of "Domain_less s" "forbidden_domains c" d] by auto
  show ?thesis
  proof (cases "r = 0")
    case True
    with r have "IsForbidden s c d = Inr False" by (simp add: IsForbidden_def)
    then show ?thesis ..
  next
    case False
    with le have "r - 1 < length (forbidden_domains c)" by simp
    with r False show ?thesis by (simp add: IsForbidden_def deref_def)
  qed
qed

lemma minimal_sorted_nth:
  "minimal_sorted s xs \<Longrightarrow> i < j \<Longrightarrow> j < length xs \<Longrightarrow>
   Domain_less s (xs ! i) (xs ! j) \<and> \<not> IsSubdomain (xs ! j) (xs ! i)"
  by (simp add: sorted_wrt_iff_nth_less)

lemma IsForbidden_minimal_sorted:
  assumes ms: "minimal_sorted s xs"
  shows "IsForbidden s \<lparr>forbidden_domains = xs\<rparr> q = Inr (\<exists>k\<in>set xs. IsSubdomain q k)"
proof -
  obtain r where r: "std_upper_bound (Domain_less s) xs q = Inr r" and le: "r \<le> length xs"
    using std_upper_bound_total [of "Domain_less s" xs q] by auto
  have mono: "Domain_less s q (xs ! j)"
    if "i \<le> j" "j < length xs" "Domain_less s q (xs ! i)" for i j
  proof (cases "i = j")
    case True
    with that show ?thesis by simp
  next
    case False
    with that have "i < j" by simp
    with ms that have "Domain_less s (xs ! i) (xs ! j)" by (simp add: minimal_sorted_nth)
    with that(3) show ?thesis by (rule Domain_less_trans)
  qed
  from r have "upper_bound_loop (Domain_less s) xs q 0 (length xs) = Inr r"
    by (simp only: std_upper_bound_def)
  then have "(\<forall>i. 0 \<le> i \<and> i < r \<longrightarrow> \<not> Domain_less s q (xs ! i)) \<and>
      (\<forall>i. r \<le> i \<and> i < 0 + length xs \<longrightarrow> Domain_less s q (xs ! i))"
    by (intro upper_bound_loop_partition [of xs "Domain_less s" q 0 "length xs" r])
       (simp_all add: mono)
  then have part: "\<forall>i. 0 \<le> i \<and> i < r \<longrightarrow> \<not> Domain_less s q (xs ! i)"
    "\<forall>i. r \<le> i \<and> i < 0 + length xs \<longrightarrow> Domain_less s q (xs ! i)"
    by simp_all
  have below: "i < r" if "i < length xs" "IsSubdomain q (xs ! i)" for i
  proof (rule ccontr)
    assume "\<not> i < r"
    with part(2) that(1) have "Domain_less s q (xs ! i)" by simp
    with IsSubdomain_not_less [OF that(2), of s] show False by simp
  qed
  show ?thesis
  proof (cases "r = 0")
    case True
    have "\<not> (\<exists>k\<in>set xs. IsSubdomain q k)"
    proof
      assume "\<exists>k\<in>set xs. IsSubdomain q k"
      then obtain i where "i < length xs" "IsSubdomain q (xs ! i)"
        by (auto simp: in_set_conv_nth)
      then have "i < r" by (rule below)
      with True show False by simp
    qed
    with r True show ?thesis by (simp add: IsForbidden_def)
  next
    case False
    with le have p: "r - 1 < length xs" "r - 1 < r" by simp_all
    have "IsSubdomain q (xs ! (r - 1)) \<longleftrightarrow> (\<exists>k\<in>set xs. IsSubdomain q k)"
    proof
      assume "IsSubdomain q (xs ! (r - 1))"
      with p(1) show "\<exists>k\<in>set xs. IsSubdomain q k" by (metis nth_mem)
    next
      assume "\<exists>k\<in>set xs. IsSubdomain q k"
      then obtain i where i: "i < length xs" "IsSubdomain q (xs ! i)"
        by (auto simp: in_set_conv_nth)
      then have "i < r" by (rule below)
      show "IsSubdomain q (xs ! (r - 1))"
      proof (cases "i = r - 1")
        case True
        with i show ?thesis by simp
      next
        case False
        with \<open>i < r\<close> have "i < r - 1" by simp
        with ms p(1) have lt: "Domain_less s (xs ! i) (xs ! (r - 1))"
          and nsub: "\<not> IsSubdomain (xs ! (r - 1)) (xs ! i)"
          by (simp_all add: minimal_sorted_nth)
        from lt have "\<not> Domain_less s (xs ! (r - 1)) (xs ! i)" by (rule Domain_less_asym)
        moreover from part(1) p(2) have "\<not> Domain_less s q (xs ! (r - 1))" by simp
        ultimately have "IsSubdomain (xs ! (r - 1)) (xs ! i)"
          by (rule IsSubdomain_between [OF i(2)])
        with nsub show ?thesis ..
      qed
    qed
    with r False p(1) show ?thesis by (simp add: IsForbidden_def deref_def)
  qed
qed

lemma forbidden_domains_ctor:
  "forbidden_domains (DomainChecker_ctor s ds) =
     std_unique related (std_sort (Domain_less s) ds)"
  by (simp add: DomainChecker_ctor_def PrepareForbiddenDomains_def)

lemma DomainChecker_ctor_eq:
  "DomainChecker_ctor s ds =
     \<lparr>forbidden_domains = std_unique related (std_sort (Domain_less s) ds)\<rparr>"
  by (simp add: DomainChecker_ctor_def PrepareForbiddenDomains_def)

lemma minimal_sorted_ctor: "minimal_sorted s (forbidden_domains (DomainChecker_ctor s ds))"
  by (simp add: forbidden_domains_ctor minimal_sorted_std_unique sorted_std_sort)

lemma set_ctor_subset: "set (forbidden_domains (DomainChecker_ctor s ds)) \<subseteq> set ds"
  using set_std_unique [of related "std_sort (Domain_less s) ds"]
  by (simp add: forbidden_domains_ctor set_std_sort)

lemma cover_ctor:
  "e \<in> set ds \<Longrightarrow> \<exists>r\<in>set (forbidden_domains (DomainChecker_ctor s ds)). IsSubdomain e r"
  using cover_std_unique [of s "std_sort (Domain_less s) ds" e]
  by (simp add: forbidden_domains_ctor set_std_sort sorted_std_sort)

lemma covered_iff:
  "(\<exists>k\<in>set (forbidden_domains (DomainChecker_ctor s ds)). IsSubdomain q k) \<longleftrightarrow>
   (\<exists>e\<in>set ds. IsSubdomain q e)"
proof
  assume "\<exists>k\<in>set (forbidden_domains (DomainChecker_ctor s ds)). IsSubdomain q k"
  then show "\<exists>e\<in>set ds. IsSubdomain q e" using set_ctor_subset by blast
next
  assume "\<exists>e\<in>set ds. IsSubdomain q e"
  then obtain e where "e \<in> set ds" "IsSubdomain q e" by blast
  then show "\<exists>k\<in>set (forbidden_domains (DomainChecker_ctor s ds)). IsSubdomain q k"
    using cover_ctor [of e ds s] IsSubdomain_trans by blast
qed

lemma IsForbidden_stored:
  "IsForbidden s (DomainChecker_ctor s ds) q =
     Inr (\<exists>k\<in>set (forbidden_domains (DomainChecker_ctor s ds)). IsSubdomain q k)"
  using IsForbidden_minimal_sorted [of s "forbidden_domains (DomainChecker_ctor s ds)" q]
    minimal_sorted_ctor [of s ds]
  by (simp add: DomainChecker_ctor_eq)

lemma IsForbidden_ctor:
  "IsForbidden s (DomainChecker_ctor s ds) q = Inr (\<exists>e\<in>set ds. IsSubdomain q e)"
  by (simp only: IsForbidden_stored covered_iff)

lemma print_results_map:
  "print_results s c qs =
     Inr (map (\<lambda>q. if IsForbidden s c q = Inr True then ''Bad'' else ''Good'') qs)"
proof (induction qs)
  case Nil
  show ?case by simp
next
  case (Cons q qs)
  obtain b where "IsForbidden s c q = Inr b" using IsForbidden_total by blast
  with Cons show ?case by simp
qed

lemma IsForbidden_same_set:
  "(\<exists>e\<in>set ds. IsSubdomain q e) = (\<exists>e\<in>set ds'. IsSubdomain q e) \<Longrightarrow>
   IsForbidden s (DomainChecker_ctor s ds) q = IsForbidden s (DomainChecker_ctor s ds') q"
  by (simp only: IsForbidden_ctor)

lemma suffix_single: "suffix [c] xs \<longleftrightarrow> xs \<noteq> [] \<and> last xs = c"
  by (cases xs rule: rev_cases) (auto simp: suffix_def)

lemma IsSubdomain_empty:
  "IsSubdomain q (DomainC '''') \<longleftrightarrow> domain_name q = [] \<or> last (domain_name q) = CHR ''.''"
  by (auto simp: IsSubdomain_iff suffix_single)

lemma Domain_less_strict_weak_order:
  "\<not> Domain_less s a a"
  "Domain_less s a b \<Longrightarrow> Domain_less s b c \<Longrightarrow> Domain_less s a c"
  "Domain_le s a b \<Longrightarrow> Domain_le s b a \<Longrightarrow> Domain_le s b c \<Longrightarrow> Domain_le s c b \<Longrightarrow>
   Domain_le s a c \<and> Domain_le s c a"
  using Domain_less_irrefl [of s a] Domain_less_trans [of s a b c]
    Domain_le_trans [of s b c a] Domain_le_trans [of s b a c]
  by blast+

section \<open>The claims\<close>

text \<open>
  C1.  For every input sequence \<open>ds\<close> and every query \<open>q\<close>, \<^verbatim>\<open>IsForbidden\<close> on the
  checker built from \<open>ds\<close> returns, without error, whether \<open>q\<close> is equal to or a
  subdomain of (\<open>IsSubdomain\<close>, which holds of equal domains) some entry of the stored,
  normalised sequence; that is the case exactly when \<open>q\<close> is equal to or a subdomain of
  some domain of the input \<open>ds\<close>; and the checker built from the empty sequence answers
  false for every query.
\<close>

theorem IsForbidden_iff_subdomain_of_entry:
  "IsForbidden s (DomainChecker_ctor s ds) q =
     Inr (\<exists>k\<in>set (forbidden_domains (DomainChecker_ctor s ds)). IsSubdomain q k) \<and>
   ((\<exists>k\<in>set (forbidden_domains (DomainChecker_ctor s ds)). IsSubdomain q k) \<longleftrightarrow>
    (\<exists>e\<in>set ds. IsSubdomain q e)) \<and>
   IsForbidden s (DomainChecker_ctor s []) q = Inr False"
proof -
  have "IsForbidden s (DomainChecker_ctor s []) q = Inr False"
    by (simp add: IsForbidden_ctor)
  then show ?thesis
    using IsForbidden_stored [of s ds q] covered_iff [of s ds q] by simp
qed

theorem IsForbidden_iff_subdomain_of_entry_witness:
  "IsForbidden True (DomainChecker_ctor True [DomainC ''maps.me'', DomainC ''com''])
     (DomainC ''gdz.com'') = Inr True \<and>
   IsForbidden True (DomainChecker_ctor True [DomainC ''maps.me'', DomainC ''com''])
     (DomainC ''gdz.ru'') = Inr False"
  using IsForbidden_iff_subdomain_of_entry
          [of True "[DomainC ''maps.me'', DomainC ''com'']" "DomainC ''gdz.com''"]
        IsForbidden_iff_subdomain_of_entry
          [of True "[DomainC ''maps.me'', DomainC ''com'']" "DomainC ''gdz.ru''"]
  by (simp add: IsSubdomain_def ends_with_def)

text \<open>
  C2.  After construction from any input sequence the stored sequence is sorted
  ascending by \<^verbatim>\<open>operator<\<close> (no element is less than an earlier one; in fact every
  element is less than every later one), no element at one position is a subdomain of
  the element at another position.  It is a covering set: its elements are input
  domains, and every input domain is a subdomain of one of them.  The object after any
  sequence of calls of \<^verbatim>\<open>IsForbidden\<close>, the only operation there is after construction,
  is the object the constructor left.
\<close>

theorem forbidden_sorted_minimal:
  "sorted_wrt (Domain_le s) (forbidden_domains (DomainChecker_ctor s ds)) \<and>
   sorted_wrt (Domain_less s) (forbidden_domains (DomainChecker_ctor s ds)) \<and>
   (\<forall>i < length (forbidden_domains (DomainChecker_ctor s ds)).
    \<forall>j < length (forbidden_domains (DomainChecker_ctor s ds)).
      i \<noteq> j \<longrightarrow>
      \<not> IsSubdomain (forbidden_domains (DomainChecker_ctor s ds) ! i)
                    (forbidden_domains (DomainChecker_ctor s ds) ! j)) \<and>
   set (forbidden_domains (DomainChecker_ctor s ds)) \<subseteq> set ds \<and>
   (\<forall>e \<in> set ds. \<exists>r \<in> set (forbidden_domains (DomainChecker_ctor s ds)). IsSubdomain e r) \<and>
   after_calls s (DomainChecker_ctor s ds) qs = DomainChecker_ctor s ds"
proof -
  define xs where "xs = forbidden_domains (DomainChecker_ctor s ds)"
  have ms: "minimal_sorted s xs" unfolding xs_def by (rule minimal_sorted_ctor)
  then have lt: "sorted_wrt (Domain_less s) xs"
    by (rule sorted_wrt_mono_rel [rotated]) simp
  then have le: "sorted_wrt (Domain_le s) xs"
    by (rule sorted_wrt_mono_rel [rotated]) (simp add: Domain_less_asym)
  have anti: "\<not> IsSubdomain (xs ! i) (xs ! j)"
    if "i < length xs" "j < length xs" "i \<noteq> j" for i j
  proof (cases "i < j")
    case True
    with ms that have "Domain_less s (xs ! i) (xs ! j)" by (simp add: minimal_sorted_nth)
    then show ?thesis using IsSubdomain_not_less by blast
  next
    case False
    with that have "j < i" by simp
    with ms that show ?thesis by (simp add: minimal_sorted_nth)
  qed
  have calls: "after_calls s c qs = c" for c
    by (induction qs) (simp_all add: IsForbidden_call_def)
  have sub: "set xs \<subseteq> set ds" unfolding xs_def by (rule set_ctor_subset)
  have cover: "\<forall>e \<in> set ds. \<exists>r \<in> set xs. IsSubdomain e r"
    unfolding xs_def using cover_ctor by blast
  from lt le anti sub cover calls show ?thesis unfolding xs_def by blast
qed

theorem forbidden_sorted_minimal_witness:
  "forbidden_domains (DomainChecker_ctor True
      [DomainC ''gdz.ru'', DomainC ''maps.me'', DomainC ''m.gdz.ru'', DomainC ''com'']) =
     [DomainC ''maps.me'', DomainC ''com'', DomainC ''gdz.ru''] \<and>
   \<not> IsSubdomain (DomainC ''maps.me'') (DomainC ''com'') \<and>
   \<not> IsSubdomain (DomainC ''gdz.ru'') (DomainC ''maps.me'')"
proof -
  have xs: "forbidden_domains (DomainChecker_ctor True
      [DomainC ''gdz.ru'', DomainC ''maps.me'', DomainC ''m.gdz.ru'', DomainC ''com'']) =
     [DomainC ''maps.me'', DomainC ''com'', DomainC ''gdz.ru'']"
    by code_simp
  have anti: "\<forall>i < length [DomainC ''maps.me'', DomainC ''com'', DomainC ''gdz.ru''].
      \<forall>j < length [DomainC ''maps.me'', DomainC ''com'', DomainC ''gdz.ru''].
        i \<noteq> j \<longrightarrow>
        \<not> IsSubdomain ([DomainC ''maps.me'', DomainC ''com'', DomainC ''gdz.ru''] ! i)
                      ([DomainC ''maps.me'', DomainC ''com'', DomainC ''gdz.ru''] ! j)"
    using forbidden_sorted_minimal [of True
      "[DomainC ''gdz.ru'', DomainC ''maps.me'', DomainC ''m.gdz.ru'', DomainC ''com'']" "[]"]
    unfolding xs by blast
  have "\<not> IsSubdomain (DomainC ''maps.me'') (DomainC ''com'')"
    using anti [rule_format, of 0 1] by simp
  moreover have "\<not> IsSubdomain (DomainC ''gdz.ru'') (DomainC ''maps.me'')"
    using anti [rule_format, of 2 0] by simp
  ultimately show ?thesis using xs by simp
qed

text \<open>
  C3.  For all strings \<open>a\<close> and \<open>b\<close>, \<^verbatim>\<open>Domain(a).IsSubdomain(Domain(b))\<close> holds exactly
  when \<open>a = b\<close> or \<open>a\<close> ends with the string \<open>"." + b\<close> (\<^const>\<open>suffix\<close> of the list
  library).  Hence every domain is a subdomain of itself; for a nonempty \<open>l\<close> and a
  nonempty \<open>p\<close> the domain \<open>l + "." + p\<close> is a subdomain of \<open>p\<close>; \<^verbatim>\<open>xp\<close> is not a
  subdomain of \<^verbatim>\<open>p\<close>, and more generally putting a character other than the dot
  in front of \<open>p\<close> never gives a subdomain of \<open>p\<close>.
\<close>

theorem IsSubdomain_iff_dot_suffix:
  "(IsSubdomain (DomainC a) (DomainC b) \<longleftrightarrow> a = b \<or> suffix (''.'' @ b) a) \<and>
   IsSubdomain d d \<and>
   (l \<noteq> [] \<and> p \<noteq> [] \<longrightarrow> IsSubdomain (DomainC (l @ ''.'' @ p)) (DomainC p)) \<and>
   \<not> IsSubdomain (DomainC ''xp'') (DomainC ''p'') \<and>
   (x \<noteq> CHR ''.'' \<longrightarrow> \<not> IsSubdomain (DomainC (x # p)) (DomainC p))"
proof -
  have 1: "IsSubdomain (DomainC a) (DomainC b) \<longleftrightarrow> a = b \<or> suffix (''.'' @ b) a"
    by (simp add: IsSubdomain_iff)
  have 2: "IsSubdomain (DomainC (l @ ''.'' @ p)) (DomainC p)"
    by (simp add: IsSubdomain_iff suffix_def)
  have 3: "\<not> IsSubdomain (DomainC ''xp'') (DomainC ''p'')"
    by (simp add: IsSubdomain_def ends_with_def)
  have 4: "\<not> IsSubdomain (DomainC (x # p)) (DomainC p)" if "x \<noteq> CHR ''.''"
  proof
    assume "IsSubdomain (DomainC (x # p)) (DomainC p)"
    then have "suffix (CHR ''.'' # p) (x # p)" by (simp add: IsSubdomain_iff)
    then have "CHR ''.'' # p = x # p \<or> suffix (CHR ''.'' # p) p" by (simp add: suffix_Cons)
    then show False
    proof
      assume "CHR ''.'' # p = x # p"
      with that show False by simp
    next
      assume "suffix (CHR ''.'' # p) p"
      then have "length (CHR ''.'' # p) \<le> length p" by (rule suffix_length_le)
      then show False by simp
    qed
  qed
  from 1 2 3 4 show ?thesis by (simp add: IsSubdomain_refl)
qed

theorem IsSubdomain_iff_dot_suffix_witness:
  "''m'' \<noteq> [] \<and> ''gdz.ru'' \<noteq> [] \<and> IsSubdomain (DomainC ''m.gdz.ru'') (DomainC ''gdz.ru'') \<and>
   CHR ''x'' \<noteq> CHR ''.'' \<and> \<not> IsSubdomain (DomainC ''xgdz.ru'') (DomainC ''gdz.ru'')"
proof -
  note inst = IsSubdomain_iff_dot_suffix
    [of "''gdz.ru''" "''ru''" "DomainC ''com''" "''m''" "''gdz.ru''" "CHR ''x''"]
  from inst have "''m'' \<noteq> [] \<and> ''gdz.ru'' \<noteq> [] \<longrightarrow>
      IsSubdomain (DomainC (''m'' @ ''.'' @ ''gdz.ru'')) (DomainC ''gdz.ru'')"
    by (elim conjE)
  moreover from inst have "CHR ''x'' \<noteq> CHR ''.'' \<longrightarrow>
      \<not> IsSubdomain (DomainC (CHR ''x'' # ''gdz.ru'')) (DomainC ''gdz.ru'')"
    by (elim conjE)
  ultimately show ?thesis by simp
qed

text \<open>
  C4.  If \<open>d\<close> is a subdomain of \<open>p\<close> then \<open>p\<close> sorts less than or equal to \<open>d\<close> under
  \<^verbatim>\<open>operator<\<close>: \<open>d\<close> is not less than \<open>p\<close>, and \<open>p\<close> is \<open>d\<close> or less than \<open>d\<close>.
\<close>

theorem superdomain_sorts_first:
  "IsSubdomain d p \<Longrightarrow> Domain_le s p d \<and> (p = d \<or> Domain_less s p d)"
  using IsSubdomain_not_less [of d p s] Domain_less_total [of s p d] by blast

theorem superdomain_sorts_first_witness:
  "IsSubdomain (DomainC ''m.gdz.ru'') (DomainC ''gdz.ru'') \<and>
   Domain_le True (DomainC ''gdz.ru'') (DomainC ''m.gdz.ru'') \<and>
   Domain_less True (DomainC ''gdz.ru'') (DomainC ''m.gdz.ru'')"
proof -
  have h: "IsSubdomain (DomainC ''m.gdz.ru'') (DomainC ''gdz.ru'')"
    by (simp add: IsSubdomain_def ends_with_def)
  from superdomain_sorts_first [OF h, of True] h show ?thesis by simp
qed

text \<open>
  C5.  The chain \<^verbatim>\<open>gdz.ru < gdz.ua < maps.com\<close> does not hold: the comparison starts
  at the last character, and \<^verbatim>\<open>u\<close> is not less than \<^verbatim>\<open>a\<close>, so \<^verbatim>\<open>gdz.ru < gdz.ua\<close>
  is false, with signed and with unsigned \<^verbatim>\<open>char\<close>.
\<close>

theorem gdz_ru_less_gdz_ua_counterexample:
  "\<not> Domain_less True (DomainC ''gdz.ru'') (DomainC ''gdz.ua'') \<and>
   \<not> Domain_less False (DomainC ''gdz.ru'') (DomainC ''gdz.ua'')"
  by (simp add: Domain_less_def dot_first_def char_less_def char_value_def)

text \<open>
  C5, as the code has it.  Under \<^verbatim>\<open>operator<\<close> the three names form the chain
  \<^verbatim>\<open>gdz.ua < maps.com < gdz.ru\<close> (last characters \<^verbatim>\<open>a\<close>, \<^verbatim>\<open>m\<close>, \<^verbatim>\<open>u\<close>); in
  particular \<^verbatim>\<open>gdz.ua < maps.com\<close> holds as claimed and \<^verbatim>\<open>gdz.ua < gdz.ru\<close>.
\<close>

theorem gdz_ua_maps_com_gdz_ru:
  "Domain_less s (DomainC ''gdz.ua'') (DomainC ''maps.com'') \<and>
   Domain_less s (DomainC ''maps.com'') (DomainC ''gdz.ru'') \<and>
   Domain_less s (DomainC ''gdz.ua'') (DomainC ''gdz.ru'')"
  by (simp add: Domain_less_def dot_first_def char_less_def char_value_def)

text \<open>
  C6.  An entry that is a subdomain of (or equal to) another listed entry does not
  change the answers: with \<open>e\<close> a subdomain of some entry of \<open>xs @ ys\<close>, the checker
  built with \<open>e\<close> inserted answers every query as the checker built from \<open>xs @ ys\<close>.
  The checker built from \<open>[d, d, d]\<close> is the checker built from \<open>[d]\<close>, and the one
  built from \<^verbatim>\<open>["com", "gdz.com"]\<close> is the one built from \<^verbatim>\<open>["com"]\<close>, so they
  answer every query alike.
\<close>

theorem redundant_entries_ignored:
  "((\<exists>e'\<in>set (xs @ ys). IsSubdomain e e') \<longrightarrow>
      IsForbidden s (DomainChecker_ctor s (xs @ e # ys)) q =
      IsForbidden s (DomainChecker_ctor s (xs @ ys)) q) \<and>
   DomainChecker_ctor s [d, d, d] = DomainChecker_ctor s [d] \<and>
   IsForbidden s (DomainChecker_ctor s [d, d, d]) q = IsForbidden s (DomainChecker_ctor s [d]) q \<and>
   DomainChecker_ctor s [DomainC ''com'', DomainC ''gdz.com''] =
     DomainChecker_ctor s [DomainC ''com''] \<and>
   IsForbidden s (DomainChecker_ctor s [DomainC ''com'', DomainC ''gdz.com'']) q =
     IsForbidden s (DomainChecker_ctor s [DomainC ''com'']) q"
proof -
  have 1: "IsForbidden s (DomainChecker_ctor s (xs @ e # ys)) q =
      IsForbidden s (DomainChecker_ctor s (xs @ ys)) q"
    if "\<exists>e'\<in>set (xs @ ys). IsSubdomain e e'"
  proof (rule IsForbidden_same_set)
    from that obtain e' where e': "e' \<in> set (xs @ ys)" "IsSubdomain e e'" by blast
    have "\<exists>k\<in>set (xs @ ys). IsSubdomain q k" if "IsSubdomain q e"
      using that e' IsSubdomain_trans by blast
    then show "(\<exists>k\<in>set (xs @ e # ys). IsSubdomain q k) = (\<exists>k\<in>set (xs @ ys). IsSubdomain q k)"
      by auto
  qed
  have 2: "DomainChecker_ctor s [d, d, d] = DomainChecker_ctor s [d]"
    by (simp add: DomainChecker_ctor_eq Domain_less_irrefl related_def IsSubdomain_refl)
  have 3: "DomainChecker_ctor s [DomainC ''com'', DomainC ''gdz.com''] =
     DomainChecker_ctor s [DomainC ''com'']"
    by (simp add: DomainChecker_ctor_eq related_def IsSubdomain_def ends_with_def
        Domain_less_def dot_first_def char_less_def)
  from 1 2 3 show ?thesis by simp
qed

theorem redundant_entries_ignored_witness:
  "(\<exists>e'\<in>set ([DomainC ''maps.me''] @ [DomainC ''com'']).
      IsSubdomain (DomainC ''gdz.com'') e') \<and>
   IsForbidden True
     (DomainChecker_ctor True [DomainC ''maps.me'', DomainC ''gdz.com'', DomainC ''com''])
     (DomainC ''a.com'') =
   IsForbidden True (DomainChecker_ctor True [DomainC ''maps.me'', DomainC ''com''])
     (DomainC ''a.com'')"
proof -
  have h: "\<exists>e'\<in>set ([DomainC ''maps.me''] @ [DomainC ''com'']).
      IsSubdomain (DomainC ''gdz.com'') e'"
    by (simp add: IsSubdomain_def ends_with_def)
  from redundant_entries_ignored
         [of "[DomainC ''maps.me'']" "[DomainC ''com'']" "DomainC ''gdz.com''" True
             "DomainC ''a.com''" "DomainC ''ru''"]
  have "(\<exists>e'\<in>set ([DomainC ''maps.me''] @ [DomainC ''com'']).
          IsSubdomain (DomainC ''gdz.com'') e') \<longrightarrow>
      IsForbidden True
        (DomainChecker_ctor True ([DomainC ''maps.me''] @ DomainC ''gdz.com'' # [DomainC ''com'']))
        (DomainC ''a.com'') =
      IsForbidden True (DomainChecker_ctor True ([DomainC ''maps.me''] @ [DomainC ''com'']))
        (DomainC ''a.com'')"
    by (elim conjE)
  with h show ?thesis by simp
qed

text \<open>
  C7.  For the block-list \<^verbatim>\<open>gdz.ru, maps.me, m.gdz.ru, com\<close> and the queries
  \<^verbatim>\<open>gdz.ru, gdz.com, m.maps.me, alg.m.gdz.ru, maps.com, maps.ru, gdz.ua\<close>, in that
  order, \<^verbatim>\<open>IsForbidden\<close> answers true, true, true, true, true, false, false, and the
  program writes the lines \<^verbatim>\<open>Bad, Bad, Bad, Bad, Bad, Good, Good\<close>; with signed and
  with unsigned \<^verbatim>\<open>char\<close>.
\<close>

theorem end_to_end_scenario:
  "map (IsForbidden s (DomainChecker_ctor s
          [DomainC ''gdz.ru'', DomainC ''maps.me'', DomainC ''m.gdz.ru'', DomainC ''com'']))
       [DomainC ''gdz.ru'', DomainC ''gdz.com'', DomainC ''m.maps.me'', DomainC ''alg.m.gdz.ru'',
        DomainC ''maps.com'', DomainC ''maps.ru'', DomainC ''gdz.ua''] =
     [Inr True, Inr True, Inr True, Inr True, Inr True, Inr False, Inr False] \<and>
   main_output s
     [DomainC ''gdz.ru'', DomainC ''maps.me'', DomainC ''m.gdz.ru'', DomainC ''com'']
     [DomainC ''gdz.ru'', DomainC ''gdz.com'', DomainC ''m.maps.me'', DomainC ''alg.m.gdz.ru'',
      DomainC ''maps.com'', DomainC ''maps.ru'', DomainC ''gdz.ua''] =
     Inr [''Bad'', ''Bad'', ''Bad'', ''Bad'', ''Bad'', ''Good'', ''Good'']"
proof (cases s)
  case True
  then have s: "s = True" by simp
  show ?thesis unfolding s by code_simp
next
  case False
  then have s: "s = False" by simp
  show ?thesis unfolding s by code_simp
qed

text \<open>
  C8.  No operation fails.  Building domains from any strings (the empty string
  included), building the checker from them (the empty sequence included) and asking
  \<^verbatim>\<open>IsForbidden\<close> returns an answer, never the error of an out-of-range read; so does
  \<^verbatim>\<open>IsForbidden\<close> on any checker object whatever its vector holds, and the whole
  program returns its lines.  The constructors are total functions without an error
  result.  The requirement the standard puts on the comparator of \<^verbatim>\<open>std::sort\<close> and
  \<^verbatim>\<open>std::upper_bound\<close> is met as well: \<open>Domain_less_strict_weak_order\<close> above.
\<close>

theorem operations_total:
  "(\<exists>b. IsForbidden s (DomainChecker_ctor s (map DomainC names)) (DomainC name) = Inr b) \<and>
   (\<exists>b. IsForbidden s (DomainChecker_ctor s []) (DomainC []) = Inr b) \<and>
   (\<exists>b. IsForbidden s c q = Inr b) \<and>
   (\<exists>out. main_output s (map DomainC names) (map DomainC queries) = Inr out)"
  using IsForbidden_total print_results_map
  by (simp add: main_output_def)

text \<open>
  C9.  The answers depend on the set of block-list entries only, and the output
  follows the queries: if two block-lists have the same set of entries (one is a
  permutation of the other, or repeats entries), the two checkers answer every query
  alike and the program writes the same lines; the output has one line per query, the
  \<open>i\<close>-th line being the token for the \<open>i\<close>-th query.
\<close>

theorem answers_depend_on_entry_set:
  "set ds = set ds' \<Longrightarrow>
     IsForbidden s (DomainChecker_ctor s ds) q = IsForbidden s (DomainChecker_ctor s ds') q \<and>
     main_output s ds qs = main_output s ds' qs \<and>
     (\<exists>out. main_output s ds qs = Inr out \<and> length out = length qs \<and>
        (\<forall>i < length qs.
           out ! i = (if IsForbidden s (DomainChecker_ctor s ds) (qs ! i) = Inr True
                      then ''Bad'' else ''Good'')))"
proof -
  assume eq: "set ds = set ds'"
  then have same: "IsForbidden s (DomainChecker_ctor s ds) q =
      IsForbidden s (DomainChecker_ctor s ds') q" for q
    by (simp add: IsForbidden_ctor)
  then have "main_output s ds qs = main_output s ds' qs"
    by (simp add: main_output_def print_results_map)
  moreover have "\<exists>out. main_output s ds qs = Inr out \<and> length out = length qs \<and>
        (\<forall>i < length qs.
           out ! i = (if IsForbidden s (DomainChecker_ctor s ds) (qs ! i) = Inr True
                      then ''Bad'' else ''Good''))"
    by (simp add: main_output_def print_results_map)
  ultimately show ?thesis using same by blast
qed

theorem answers_depend_on_entry_set_witness:
  "set [DomainC ''com'', DomainC ''gdz.ru''] =
     set [DomainC ''gdz.ru'', DomainC ''com'', DomainC ''gdz.ru'', DomainC ''com''] \<and>
   main_output True [DomainC ''com'', DomainC ''gdz.ru''] [DomainC ''maps.com'', DomainC ''maps.ru''] =
   main_output True [DomainC ''gdz.ru'', DomainC ''com'', DomainC ''gdz.ru'', DomainC ''com'']
     [DomainC ''maps.com'', DomainC ''maps.ru'']"
proof -
  have h: "set [DomainC ''com'', DomainC ''gdz.ru''] =
     set [DomainC ''gdz.ru'', DomainC ''com'', DomainC ''gdz.ru'', DomainC ''com'']"
    by auto
  from answers_depend_on_entry_set [OF h, of True "DomainC ''maps.com''"
      "[DomainC ''maps.com'', DomainC ''maps.ru'']"] h
  show ?thesis by blast
qed

text \<open>
  C10.  That every nonempty query not ending with a dot is reported not forbidden
  whenever the empty name is in the block-list does not hold: with the block-list
  \<^verbatim>\<open>"", "com"\<close> the query \<^verbatim>\<open>com\<close>, nonempty and not ending with a dot, is
  forbidden, because of the entry \<^verbatim>\<open>com\<close>; with signed and with unsigned \<^verbatim>\<open>char\<close>.
\<close>

theorem empty_name_entry_counterexample:
  "domain_name (DomainC ''com'') \<noteq> [] \<and>
   last (domain_name (DomainC ''com'')) \<noteq> CHR ''.'' \<and>
   DomainC [] \<in> set [DomainC [], DomainC ''com''] \<and>
   IsForbidden True (DomainChecker_ctor True [DomainC [], DomainC ''com''])
     (DomainC ''com'') = Inr True \<and>
   IsForbidden False (DomainChecker_ctor False [DomainC [], DomainC ''com''])
     (DomainC ''com'') = Inr True"
  by code_simp

text \<open>
  C10, as the code has it.  A domain \<open>q\<close> is a subdomain of the domain with the empty
  name exactly when the name of \<open>q\<close> is empty or ends with a dot.  So an entry with the
  empty name does not by itself forbid a query whose name is nonempty and does not end
  with a dot: the checker built from that entry alone answers false for such a query,
  and in any block-list the entry can be taken out without changing the answer for
  such a query.
\<close>

theorem empty_name_entry:
  "(IsSubdomain q (DomainC '''') \<longleftrightarrow>
      domain_name q = [] \<or> last (domain_name q) = CHR ''.'') \<and>
   (domain_name q \<noteq> [] \<and> last (domain_name q) \<noteq> CHR ''.'' \<longrightarrow>
      IsForbidden s (DomainChecker_ctor s [DomainC '''']) q = Inr False \<and>
      IsForbidden s (DomainChecker_ctor s (xs @ DomainC '''' # ys)) q =
        IsForbidden s (DomainChecker_ctor s (xs @ ys)) q)"
proof -
  have "IsForbidden s (DomainChecker_ctor s [DomainC '''']) q = Inr False \<and>
      IsForbidden s (DomainChecker_ctor s (xs @ DomainC '''' # ys)) q =
        IsForbidden s (DomainChecker_ctor s (xs @ ys)) q"
    if "domain_name q \<noteq> []" "last (domain_name q) \<noteq> CHR ''.''"
  proof -
    from that have "\<not> IsSubdomain q (DomainC '''')" by (simp add: IsSubdomain_empty)
    then show ?thesis by (simp add: IsForbidden_ctor)
  qed
  then show ?thesis using IsSubdomain_empty [of q] by blast
qed

theorem empty_name_entry_witness:
  "domain_name (DomainC ''com'') \<noteq> [] \<and> last (domain_name (DomainC ''com'')) \<noteq> CHR ''.'' \<and>
   IsForbidden True (DomainChecker_ctor True [DomainC '''']) (DomainC ''com'') = Inr False \<and>
   IsForbidden True (DomainChecker_ctor True [DomainC ''ru'', DomainC '''', DomainC ''com''])
     (DomainC ''com'') =
   IsForbidden True (DomainChecker_ctor True [DomainC ''ru'', DomainC ''com'']) (DomainC ''com'')"
proof -
  have h: "domain_name (DomainC ''com'') \<noteq> [] \<and>
      last (domain_name (DomainC ''com'')) \<noteq> CHR ''.''"
    by simp
  from empty_name_entry [of "DomainC ''com''" True "[DomainC ''ru'']" "[DomainC ''com'']"]
  have "domain_name (DomainC ''com'') \<noteq> [] \<and> last (domain_name (DomainC ''com'')) \<noteq> CHR ''.'' \<longrightarrow>
      IsForbidden True (DomainChecker_ctor True [DomainC '''']) (DomainC ''com'') = Inr False \<and>
      IsForbidden True (DomainChecker_ctor True ([DomainC ''ru''] @ DomainC '''' # [DomainC ''com'']))
        (DomainC ''com'') =
      IsForbidden True (DomainChecker_ctor True ([DomainC ''ru''] @ [DomainC ''com'']))
        (DomainC ''com'')"
    by (elim conjE)
  with h show ?thesis by simp
qed

end
